theory Spec2Isabelle
  imports Main "HOL-Library.Sublist"
begin

section \<open>The min/max expression evaluator\<close>

text \<open>
  The program evaluates expressions such as \<open>M(15,m(16,8))\<close>: \<open>m\<close> is minimum, \<open>M\<close> is
  maximum. Class \<open>MiniMaxParser\<close> first validates the whole string and then scans it
  once, left to right, with an auxiliary stack.

  Strings are HOL strings, lists of 8-bit characters; a Python string may hold any code
  point, and validation rejects every character outside its seventeen allowed ones by
  the same test of membership. Python integers are unbounded: \<open>int\<close>.

  Every error \<open>evaluate\<close> raises is a \<open>ValueError\<close> with its own message; each message
  is one constructor of \<open>error\<close>, under the name the specification gives it.
  \<open>IndexError\<close> is what \<open>Stack.pop\<close> raises on the empty stack.
\<close>

datatype error =
    EmptyExpression
  | InvalidCharacter char
  | UnmatchedClosingParen
  | UnbalancedParens
  | NoOperator
  | NegativeNumberNotAllowed
  | NonIntegerNotAllowed
  | InsufficientOperands
  | NonIntegerOperand
  | MalformedOperatorPlacement
  | UnexpectedCharacter char
  | NoResult
  | ExtraArguments
  | IndexError

subsection \<open>Class Stack\<close>

text \<open>
  The stack holds what \<open>evaluate\<close> pushes: Python integers (\<open>IntCell\<close>) and the
  one-character strings \<open>'m'\<close> and \<open>'M'\<close> (\<open>StrCell\<close>). The list \<open>_items\<close> is kept
  with its top at the head.
\<close>

datatype cell = IntCell int | StrCell char

type_synonym stack = "cell list"

definition push :: "cell \<Rightarrow> stack \<Rightarrow> stack" where
  "push item st = item # st"

fun pop :: "stack \<Rightarrow> error + (cell \<times> stack)" where
  "pop [] = Inl IndexError"
| "pop (item # st) = Inr (item, st)"

definition is_empty :: "stack \<Rightarrow> bool" where
  "is_empty st \<longleftrightarrow> length st = 0"

subsection \<open>Validation\<close>

definition ALLOWED_CHARS :: "char set" where
  "ALLOWED_CHARS = set ''0123456789mM(),-.''"

text \<open>The first loop of \<open>_validate_expression\<close>: the first character that is not allowed.\<close>

fun check_chars :: "string \<Rightarrow> error + unit" where
  "check_chars [] = Inr ()"
| "check_chars (ch # rest) =
     (if ch \<notin> ALLOWED_CHARS then Inl (InvalidCharacter ch) else check_chars rest)"

text \<open>The second loop: the running parenthesis balance, starting from \<open>balance\<close>.\<close>

fun balance_loop :: "string \<Rightarrow> int \<Rightarrow> error + int" where
  "balance_loop [] balance = Inr balance"
| "balance_loop (ch # rest) balance =
     (if ch = CHR ''('' then balance_loop rest (balance + 1)
      else if ch = CHR '')'' then
        (if balance - 1 < 0 then Inl UnmatchedClosingParen
         else balance_loop rest (balance - 1))
      else balance_loop rest balance)"

definition validate_expression :: "string \<Rightarrow> error + unit" where
  "validate_expression expression =
     (if expression = [] then Inl EmptyExpression
      else case check_chars expression of
        Inl err \<Rightarrow> Inl err
      | Inr _ \<Rightarrow>
          (case balance_loop expression 0 of
             Inl err \<Rightarrow> Inl err
           | Inr balance \<Rightarrow>
               if balance \<noteq> 0 then Inl UnbalancedParens
               else if CHR ''m'' \<notin> set expression \<and> CHR ''M'' \<notin> set expression
                 then Inl NoOperator
               else Inr ()))"

subsection \<open>Evaluation\<close>

text \<open>
  \<open>evaluate\<close> validates first, so the scan only ever reads characters of
  \<open>ALLOWED_CHARS\<close>; on those \<open>str.isdigit\<close> is true exactly for \<open>0\<close> to \<open>9\<close> and
  \<open>int(ch)\<close> is the digit's value.
\<close>

definition isdigit :: "char \<Rightarrow> bool" where
  "isdigit ch \<longleftrightarrow> ch \<in> set ''0123456789''"

definition int_of_digit :: "char \<Rightarrow> int" where
  "int_of_digit ch = int (of_char ch) - 48"

text \<open>The \<open>while\<close> loop of \<open>_read_number\<close>, from accumulator \<open>num\<close> and position \<open>i\<close>.\<close>

function read_number_loop :: "string \<Rightarrow> int \<Rightarrow> nat \<Rightarrow> int \<times> nat" where
  "read_number_loop expression num i =
     (if i < length expression \<and> isdigit (expression ! i)
      then read_number_loop expression (num * 10 + int_of_digit (expression ! i)) (i + 1)
      else (num, i))"
  by pat_completeness auto
termination
  by (relation "measure (\<lambda>(expression, num, i). length expression - i)") auto

declare read_number_loop.simps [simp del]

definition read_number :: "string \<Rightarrow> nat \<Rightarrow> int \<times> nat" where
  "read_number expression start_idx = read_number_loop expression 0 start_idx"

text \<open>
  The reduction at \<open>)\<close>: three pops, \<open>b\<close> then \<open>a\<close> then \<open>operator\<close>; an
  \<open>IndexError\<close> of any of them (\<open>pop\<close> raises nothing else) is caught and raised
  again as one \<open>ValueError\<close>.
\<close>

definition reduce :: "stack \<Rightarrow> error + stack" where
  "reduce st =
     (case pop st of
        Inl _ \<Rightarrow> Inl InsufficientOperands
      | Inr (b, st1) \<Rightarrow>
          (case pop st1 of
             Inl _ \<Rightarrow> Inl InsufficientOperands
           | Inr (a, st2) \<Rightarrow>
               (case pop st2 of
                  Inl _ \<Rightarrow> Inl InsufficientOperands
                | Inr (operator, st3) \<Rightarrow>
                    (case (a, b) of
                       (IntCell x, IntCell y) \<Rightarrow>
                         if operator \<noteq> StrCell CHR ''m'' \<and> operator \<noteq> StrCell CHR ''M''
                           then Inl MalformedOperatorPlacement
                         else if operator = StrCell CHR ''m''
                           then Inr (push (IntCell (min x y)) st3)
                         else Inr (push (IntCell (max x y)) st3)
                     | _ \<Rightarrow> Inl NonIntegerOperand))))"

text \<open>
  One iteration of the main \<open>while\<close> loop at position \<open>i < len(expression)\<close>: an error,
  or the next position and the stack.
\<close>

definition scan_step :: "string \<Rightarrow> nat \<Rightarrow> stack \<Rightarrow> error + (nat \<times> stack)" where
  "scan_step expression i st =
     (let char = expression ! i in
      if char = CHR ''-'' \<and> i + 1 < length expression \<and> isdigit (expression ! (i + 1))
        then Inl NegativeNumberNotAllowed
      else if char = CHR ''.'' \<or>
              (isdigit char \<and> i + 1 < length expression \<and> expression ! (i + 1) = CHR ''.'')
        then Inl NonIntegerNotAllowed
      else if isdigit char then
        (case read_number expression i of (number, j) \<Rightarrow> Inr (j, push (IntCell number) st))
      else if char = CHR ''m'' \<or> char = CHR ''M'' then Inr (i + 1, push (StrCell char) st)
      else if char = CHR '')'' then
        (case reduce st of Inl err \<Rightarrow> Inl err | Inr st' \<Rightarrow> Inr (i + 1, st'))
      else if char = CHR ''('' \<or> char = CHR '','' then Inr (i + 1, st)
      else Inl (UnexpectedCharacter char))"

text \<open>The main loop, from position \<open>i\<close> and stack \<open>st\<close>, to an error or the final stack.\<close>

function scan :: "string \<Rightarrow> nat \<Rightarrow> stack \<Rightarrow> error + stack" where
  "scan expression i st =
     (if i < length expression then
        (case scan_step expression i st of
           Inl err \<Rightarrow> Inl err
         | Inr (j, st') \<Rightarrow> scan expression j st')
      else Inr st)"
  by pat_completeness auto

text \<open>
  \<open>evaluate\<close> of a parser made by \<open>MiniMaxParser(expression)\<close>, whose stack is new and
  empty. The result is whatever cell the last \<open>pop\<close> returns; that \<open>pop\<close> is not
  inside a \<open>try\<close>.
\<close>

definition evaluate :: "string \<Rightarrow> error + cell" where
  "evaluate expression =
     (case validate_expression expression of
        Inl err \<Rightarrow> Inl err
      | Inr _ \<Rightarrow>
          (case scan expression 0 [] of
             Inl err \<Rightarrow> Inl err
           | Inr st \<Rightarrow>
               if is_empty st then Inl NoResult
               else (case pop st of
                       Inl err \<Rightarrow> Inl err
                     | Inr (result, st') \<Rightarrow>
                         if \<not> is_empty st' then Inl ExtraArguments else Inr result)))"

subsection \<open>The loops with a bound on their iterations\<close>

text \<open>
  The two loops again, stopped with \<open>None\<close> once \<open>fuel\<close> iterations are used up, and
  otherwise iteration for iteration as above. They measure how many iterations the
  loops take.
\<close>

fun read_number_fuel :: "nat \<Rightarrow> string \<Rightarrow> int \<Rightarrow> nat \<Rightarrow> (int \<times> nat) option" where
  "read_number_fuel 0 expression num i =
     (if i < length expression \<and> isdigit (expression ! i) then None else Some (num, i))"
| "read_number_fuel (Suc fuel) expression num i =
     (if i < length expression \<and> isdigit (expression ! i)
      then read_number_fuel fuel expression (num * 10 + int_of_digit (expression ! i)) (i + 1)
      else Some (num, i))"

fun scan_fuel :: "nat \<Rightarrow> string \<Rightarrow> nat \<Rightarrow> stack \<Rightarrow> (error + stack) option" where
  "scan_fuel 0 expression i st = (if i < length expression then None else Some (Inr st))"
| "scan_fuel (Suc fuel) expression i st =
     (if i < length expression then
        (case scan_step expression i st of
           Inl err \<Rightarrow> Some (Inl err)
         | Inr (j, st') \<Rightarrow> scan_fuel fuel expression j st')
      else Some (Inr st))"

text \<open>
  The state of the main loop after at most \<open>k\<close> iterations, starting as \<open>evaluate\<close> does
  at position \<open>0\<close> with the empty stack: the scan stands at position \<open>i\<close> with stack
  \<open>st\<close> when \<open>scan_after expression k = Inr (i, st)\<close> for some \<open>k\<close>.
\<close>

fun scan_after :: "string \<Rightarrow> nat \<Rightarrow> error + (nat \<times> stack)" where
  "scan_after expression 0 = Inr (0, [])"
| "scan_after expression (Suc k) =
     (case scan_after expression k of
        Inl err \<Rightarrow> Inl err
      | Inr (i, st) \<Rightarrow> if i < length expression then scan_step expression i st else Inr (i, st))"

section \<open>The specification's notions\<close>

text \<open>
  The depth of a string is the number of its opening minus the number of its closing
  parentheses; it goes negative when some prefix has negative depth.
\<close>

definition paren_depth :: "string \<Rightarrow> int" where
  "paren_depth s = int (count_list s CHR ''('') - int (count_list s CHR '')'')"

definition depth_goes_negative :: "string \<Rightarrow> bool" where
  "depth_goes_negative s \<longleftrightarrow> (\<exists>p \<in> set (prefixes s). paren_depth p < 0)"

definition first_violation :: "string \<Rightarrow> error option" where
  "first_violation s =
     (if s = [] then Some EmptyExpression
      else if \<exists>ch \<in> set s. ch \<notin> ALLOWED_CHARS
        then Some (InvalidCharacter (hd (filter (\<lambda>ch. ch \<notin> ALLOWED_CHARS) s)))
      else if depth_goes_negative s then Some UnmatchedClosingParen
      else if paren_depth s \<noteq> 0 then Some UnbalancedParens
      else if CHR ''m'' \<notin> set s \<and> CHR ''M'' \<notin> set s then Some NoOperator
      else None)"

text \<open>
  The expressions of the grammar \<open>E := digits | Op(E,E)\<close>: trees, the string each one
  is written as, and its value. A tree is well formed when its digit strings are not
  empty and hold digits only. Digit strings are read in base ten, most significant
  digit first.
\<close>

datatype operator = OpMin | OpMax

datatype expr = Digits string | Apply operator expr expr

fun operator_char :: "operator \<Rightarrow> char" where
  "operator_char OpMin = CHR ''m''"
| "operator_char OpMax = CHR ''M''"

fun render :: "expr \<Rightarrow> string" where
  "render (Digits ds) = ds"
| "render (Apply oper a b) =
     operator_char oper # CHR ''('' # render a @ CHR '','' # render b @ [CHR '')'']"

fun well_formed :: "expr \<Rightarrow> bool" where
  "well_formed (Digits ds) \<longleftrightarrow> ds \<noteq> [] \<and> list_all isdigit ds"
| "well_formed (Apply oper a b) \<longleftrightarrow> well_formed a \<and> well_formed b"

fun decimal :: "string \<Rightarrow> int" where
  "decimal [] = 0"
| "decimal (d # ds) = int_of_digit d * 10 ^ length ds + decimal ds"

fun fold_value :: "expr \<Rightarrow> int" where
  "fold_value (Digits ds) = decimal ds"
| "fold_value (Apply OpMin a b) = min (fold_value a) (fold_value b)"
| "fold_value (Apply OpMax a b) = max (fold_value a) (fold_value b)"

text \<open>Two notions used in the proofs only.\<close>

definition paren_delta :: "char \<Rightarrow> int" where
  "paren_delta ch = (if ch = CHR ''('' then 1 else if ch = CHR '')'' then - 1 else 0)"

definition terminator :: "string \<Rightarrow> bool" where
  "terminator post \<longleftrightarrow> post = [] \<or> hd post = CHR '','' \<or> hd post = CHR '')''"

section \<open>Termination of the scan\<close>

lemma read_number_loop_bounds:
  "i \<le> snd (read_number_loop expression num i) \<and>
   snd (read_number_loop expression num i) \<le> max i (length expression)"
proof (induction expression num i rule: read_number_loop.induct)
  case (1 expression num i)
  show ?case
  proof (cases "i < length expression \<and> isdigit (expression ! i)")
    case True
    with 1 show ?thesis
      by (subst read_number_loop.simps, subst (2) read_number_loop.simps) auto
  next
    case False
    then show ?thesis
      by (subst read_number_loop.simps, subst (2) read_number_loop.simps) auto
  qed
qed

lemma read_number_loop_advances:
  "i < length expression \<Longrightarrow> isdigit (expression ! i) \<Longrightarrow>
   i < snd (read_number_loop expression num i)"
  using read_number_loop_bounds [of "i + 1" expression "num * 10 + int_of_digit (expression ! i)"]
  by (subst read_number_loop.simps) auto

lemma scan_step_advances:
  assumes "i < length expression" and "scan_step expression i st = Inr (j, st')"
  shows "i < j \<and> j \<le> length expression"
proof -
  have rn: "isdigit (expression ! i) \<Longrightarrow> read_number expression i = (n, k) \<Longrightarrow>
            i < k \<and> k \<le> length expression" for n k
    using read_number_loop_advances [OF assms(1), of 0]
      read_number_loop_bounds [of i expression 0] assms(1)
    by (auto simp: read_number_def)
  from assms show ?thesis
    by (auto simp: scan_step_def Let_def split: if_splits prod.splits sum.splits dest: rn)
qed

termination scan
proof (relation "measure (\<lambda>(expression, i, st). length expression - i)")
  show "wf (measure (\<lambda>(expression, i, st). length expression - i))" by simp
next
  fix expression :: string and i :: nat and st :: stack and x2 j st'
  assume "i < length expression" and "scan_step expression i st = Inr x2" and "(j, st') = x2"
  then have "i < j \<and> j \<le> length expression"
    using scan_step_advances [of i expression st j st'] by simp
  then show "((expression, j, st'), (expression, i, st))
               \<in> measure (\<lambda>(expression, i, st). length expression - i)"
    by auto
qed

declare scan.simps [simp del]

section \<open>Validation\<close>

lemma check_chars_first:
  "check_chars s =
     (if \<exists>ch \<in> set s. ch \<notin> ALLOWED_CHARS
      then Inl (InvalidCharacter (hd (filter (\<lambda>ch. ch \<notin> ALLOWED_CHARS) s)))
      else Inr ())"
  by (induction s) auto

lemma paren_depth_Nil: "paren_depth [] = 0"
  by (simp add: paren_depth_def)

lemma paren_depth_Cons: "paren_depth (ch # s) = paren_delta ch + paren_depth s"
  by (simp add: paren_depth_def paren_delta_def)

lemma balance_loop_Cons:
  "0 \<le> b \<Longrightarrow>
   balance_loop (ch # rest) b =
     (if b + paren_delta ch < 0 then Inl UnmatchedClosingParen
      else balance_loop rest (b + paren_delta ch))"
  by (simp add: paren_delta_def)

lemma balance_loop_depth:
  "0 \<le> b \<Longrightarrow>
   balance_loop s b =
     (if \<exists>p \<in> set (prefixes s). b + paren_depth p < 0
      then Inl UnmatchedClosingParen else Inr (b + paren_depth s))"
proof (induction s arbitrary: b)
  case Nil
  then show ?case by (simp add: paren_depth_Nil)
next
  case (Cons ch rest)
  let ?b' = "b + paren_delta ch"
  have ex: "(\<exists>p \<in> set (prefixes (ch # rest)). b + paren_depth p < 0)
            \<longleftrightarrow> (\<exists>p \<in> set (prefixes rest). ?b' + paren_depth p < 0)"
    using Cons.prems
    by (simp add: paren_depth_Nil paren_depth_Cons add.assoc del: in_set_prefixes)
  show ?case
  proof (cases "?b' < 0")
    case True
    then have "\<exists>p \<in> set (prefixes rest). ?b' + paren_depth p < 0"
      by (intro bexI [of _ "[]"]) (simp_all add: paren_depth_Nil)
    moreover have "balance_loop (ch # rest) b = Inl UnmatchedClosingParen"
      using True Cons.prems by (subst balance_loop_Cons) simp_all
    ultimately show ?thesis
      unfolding ex by (simp del: balance_loop.simps)
  next
    case False
    then have "balance_loop (ch # rest) b = balance_loop rest ?b'"
      using Cons.prems by (subst balance_loop_Cons) simp_all
    also have "\<dots> = (if \<exists>p \<in> set (prefixes rest). ?b' + paren_depth p < 0
        then Inl UnmatchedClosingParen else Inr (?b' + paren_depth rest))"
      using False by (intro Cons.IH) simp
    finally show ?thesis
      unfolding ex by (simp add: paren_depth_Cons add.assoc del: balance_loop.simps)
  qed
qed

text \<open>
  C4. Validation reports the first violated rule, in this order: the empty string is
  \<open>EmptyExpression\<close>; else the first character outside \<open>0-9mM(),-.\<close> is
  \<open>InvalidCharacter\<close> of that character; else a depth that goes negative in the
  left-to-right scan is \<open>UnmatchedClosingParen\<close>; else a final depth other than zero is
  \<open>UnbalancedParens\<close>; else a string with neither \<open>m\<close> nor \<open>M\<close> is \<open>NoOperator\<close>;
  else validation succeeds.
\<close>

theorem validate_first_violation:
  "validate_expression s = (case first_violation s of None \<Rightarrow> Inr () | Some err \<Rightarrow> Inl err)"
  by (simp add: validate_expression_def first_violation_def check_chars_first
      balance_loop_depth depth_goes_negative_def)

text \<open>
  The theorem at a string whose first violation is the closing parenthesis at its end,
  and at a string that passes.
\<close>

theorem validate_first_violation_witness:
  "first_violation ''M(1,2))'' = Some UnmatchedClosingParen \<and>
   validate_expression ''M(1,2))'' = Inl UnmatchedClosingParen \<and>
   first_violation ''M(1,2)'' = None \<and>
   validate_expression ''M(1,2)'' = Inr ()"
proof -
  have "first_violation ''M(1,2))'' = Some UnmatchedClosingParen"
    by (simp add: first_violation_def depth_goes_negative_def paren_depth_def ALLOWED_CHARS_def
        del: in_set_prefixes)
  moreover have "first_violation ''M(1,2)'' = None"
    by (simp add: first_violation_def depth_goes_negative_def paren_depth_def ALLOWED_CHARS_def
        del: in_set_prefixes)
  ultimately show ?thesis
    using validate_first_violation [of "''M(1,2))''"] validate_first_violation [of "''M(1,2)''"]
    by simp
qed

section \<open>Facts about the scan\<close>

lemma scan_next:
  "i < length e \<Longrightarrow> scan_step e i st = Inr (j, st') \<Longrightarrow> scan e i st = scan e j st'"
  by (subst scan.simps) simp

lemma scan_raise:
  "i < length e \<Longrightarrow> scan_step e i st = Inl err \<Longrightarrow> scan e i st = Inl err"
  by (subst scan.simps) simp

lemma scan_done: "\<not> i < length e \<Longrightarrow> scan e i st = Inr st"
  by (subst scan.simps) simp

lemma scan_after_scan:
  "scan_after e k = Inr (i, st) \<Longrightarrow> scan e 0 [] = scan e i st"
proof (induction k arbitrary: i st)
  case 0
  then show ?case by simp
next
  case (Suc k)
  from Suc.prems obtain i0 st0 where prev: "scan_after e k = Inr (i0, st0)"
    by (auto split: sum.splits)
  show ?case
  proof (cases "i0 < length e")
    case True
    with Suc.prems prev have "scan_step e i0 st0 = Inr (i, st)" by simp
    with True have "scan e i0 st0 = scan e i st" by (rule scan_next)
    with Suc.IH [OF prev] show ?thesis by simp
  next
    case False
    with Suc.prems prev Suc.IH [OF prev] show ?thesis by simp
  qed
qed

lemma reduce_eq:
  "reduce st =
     (case st of
        b # a # operator # st3 \<Rightarrow>
          (case (a, b) of
             (IntCell x, IntCell y) \<Rightarrow>
               if operator \<noteq> StrCell CHR ''m'' \<and> operator \<noteq> StrCell CHR ''M''
                 then Inl MalformedOperatorPlacement
               else if operator = StrCell CHR ''m'' then Inr (IntCell (min x y) # st3)
               else Inr (IntCell (max x y) # st3)
           | _ \<Rightarrow> Inl NonIntegerOperand)
      | _ \<Rightarrow> Inl InsufficientOperands)"
  by (auto simp: reduce_def push_def split: list.splits cell.splits)

lemma pop_raises: "pop st = Inl err \<longleftrightarrow> st = [] \<and> err = IndexError"
  by (cases st) auto

lemma reduce_nonempty: "reduce st = Inr st' \<Longrightarrow> st' \<noteq> []"
  by (auto simp: reduce_eq split: list.splits cell.splits if_splits)

lemma scan_step_nonempty:
  "scan_step e i st = Inr (j, st') \<Longrightarrow> st \<noteq> [] \<Longrightarrow> st' \<noteq> []"
  by (auto simp: scan_step_def Let_def push_def split: if_splits prod.splits sum.splits
      dest: reduce_nonempty)

lemma scan_keeps_nonempty:
  "scan e i st = Inr st' \<Longrightarrow> st \<noteq> [] \<Longrightarrow> st' \<noteq> []"
proof (induction e i st rule: scan.induct)
  case (1 e i st)
  show ?case
  proof (cases "i < length e")
    case False
    with "1.prems" show ?thesis by (simp add: scan_done)
  next
    case True
    show ?thesis
    proof (cases "scan_step e i st")
      case (Inl err)
      with True "1.prems" show ?thesis by (simp add: scan_raise)
    next
      case (Inr x2)
      obtain j st2 where x2: "x2 = (j, st2)" by (cases x2)
      with Inr True have "scan e i st = scan e j st2" by (simp add: scan_next)
      moreover have "st2 \<noteq> []" using Inr x2 "1.prems"(2) scan_step_nonempty by blast
      ultimately show ?thesis
        using "1.IH" [OF True Inr x2 [symmetric]] "1.prems"(1) by simp
    qed
  qed
qed

lemma read_number_loop_skips_digits:
  "i \<le> p \<Longrightarrow> p < snd (read_number_loop e num i) \<Longrightarrow> isdigit (e ! p)"
proof (induction e num i rule: read_number_loop.induct)
  case (1 e num i)
  show ?case
  proof (cases "i < length e \<and> isdigit (e ! i)")
    case True
    show ?thesis
    proof (cases "p = i")
      case True
      with \<open>i < length e \<and> isdigit (e ! i)\<close> show ?thesis by simp
    next
      case False
      with "1.prems" have "i + 1 \<le> p" by simp
      moreover have "p < snd (read_number_loop e (num * 10 + int_of_digit (e ! i)) (i + 1))"
        using "1.prems"(2) True by (subst (asm) read_number_loop.simps) simp
      ultimately show ?thesis using "1.IH" True by blast
    qed
  next
    case False
    with "1.prems" show ?thesis by (subst (asm) read_number_loop.simps) auto
  qed
qed

lemma scan_step_skips_digits:
  "scan_step e i st = Inr (j, st') \<Longrightarrow> i < p \<Longrightarrow> p < j \<Longrightarrow> isdigit (e ! p)"
  using read_number_loop_skips_digits [of i p e 0]
  by (auto simp: scan_step_def Let_def read_number_def split: if_splits prod.splits sum.splits)

lemma scan_step_operator:
  "e ! i = CHR ''m'' \<or> e ! i = CHR ''M'' \<Longrightarrow> scan_step e i st = Inr (i + 1, StrCell (e ! i) # st)"
  by (auto simp: scan_step_def Let_def push_def isdigit_def)

lemma scan_operator_nonempty:
  "scan e i st = Inr st' \<Longrightarrow> i \<le> k \<Longrightarrow> k < length e \<Longrightarrow>
   e ! k = CHR ''m'' \<or> e ! k = CHR ''M'' \<Longrightarrow> st' \<noteq> []"
proof (induction e i st rule: scan.induct)
  case (1 e i st)
  from "1.prems" have lt: "i < length e" by simp
  show ?case
  proof (cases "scan_step e i st")
    case (Inl err)
    with lt "1.prems" show ?thesis by (simp add: scan_raise)
  next
    case (Inr x2)
    obtain j st2 where x2: "x2 = (j, st2)" by (cases x2)
    with Inr lt have nxt: "scan e j st2 = Inr st'" using "1.prems"(1) by (simp add: scan_next)
    show ?thesis
    proof (cases "i = k")
      case True
      with "1.prems"(4) Inr x2 have "st2 \<noteq> []" by (auto simp: scan_step_operator)
      with nxt show ?thesis by (rule scan_keeps_nonempty)
    next
      case False
      with "1.prems"(2) have "i < k" by simp
      have "j \<le> k"
      proof (rule ccontr)
        assume "\<not> j \<le> k"
        then have "isdigit (e ! k)"
          using scan_step_skips_digits [of e i st j st2 k] Inr x2 \<open>i < k\<close> by simp
        with "1.prems"(4) show False by (auto simp: isdigit_def)
      qed
      then show ?thesis
        using "1.IH" [OF lt Inr x2 [symmetric] nxt] "1.prems"(3,4) by simp
    qed
  qed
qed

lemma validate_allowed: "validate_expression e = Inr () \<Longrightarrow> \<forall>ch \<in> set e. ch \<in> ALLOWED_CHARS"
proof -
  have "check_chars s = Inr u \<Longrightarrow> \<forall>ch \<in> set s. ch \<in> ALLOWED_CHARS" for s u
    by (induction s) (auto split: if_splits)
  then show "validate_expression e = Inr () \<Longrightarrow> \<forall>ch \<in> set e. ch \<in> ALLOWED_CHARS"
    by (auto simp: validate_expression_def split: if_splits sum.splits)
qed

lemma validate_has_operator:
  "validate_expression e = Inr () \<Longrightarrow> \<exists>k < length e. e ! k = CHR ''m'' \<or> e ! k = CHR ''M''"
  by (auto simp: validate_expression_def in_set_conv_nth split: if_splits sum.splits)

lemma balance_loop_error: "balance_loop s b = Inl err \<Longrightarrow> err = UnmatchedClosingParen"
  by (induction s arbitrary: b) (auto split: if_splits)

lemma validate_errors:
  "validate_expression e = Inl err \<Longrightarrow>
   err = EmptyExpression \<or> (\<exists>ch. err = InvalidCharacter ch) \<or> err = UnmatchedClosingParen \<or>
   err = UnbalancedParens \<or> err = NoOperator"
  by (auto simp: validate_expression_def check_chars_first split: if_splits sum.splits
      dest: balance_loop_error)

lemma scan_error_origin:
  "scan e i st = Inl err \<Longrightarrow> \<exists>j st'. i \<le> j \<and> j < length e \<and> scan_step e j st' = Inl err"
proof (induction e i st rule: scan.induct)
  case (1 e i st)
  show ?case
  proof (cases "i < length e")
    case False
    with "1.prems" show ?thesis by (simp add: scan_done)
  next
    case True
    show ?thesis
    proof (cases "scan_step e i st")
      case (Inl err')
      with True "1.prems" have "scan_step e i st = Inl err" by (simp add: scan_raise)
      with True show ?thesis by blast
    next
      case (Inr x2)
      obtain j st2 where x2: "x2 = (j, st2)" by (cases x2)
      with Inr True "1.prems" have "scan e j st2 = Inl err" by (simp add: scan_next)
      from "1.IH" [OF True Inr x2 [symmetric] this]
      obtain j' st' where "j \<le> j'" "j' < length e" "scan_step e j' st' = Inl err" by blast
      moreover have "i < j" using scan_step_advances [OF True] Inr x2 by simp
      ultimately show ?thesis by (intro exI [of _ j'] exI [of _ st']) simp
    qed
  qed
qed

lemma reduce_errors:
  "reduce st = Inl err \<Longrightarrow>
   err = InsufficientOperands \<or> err = NonIntegerOperand \<or> err = MalformedOperatorPlacement"
  by (auto simp: reduce_eq split: list.splits cell.splits if_splits)

lemma scan_step_errors:
  "scan_step e i st = Inl err \<Longrightarrow>
   err = NegativeNumberNotAllowed \<or> err = NonIntegerNotAllowed \<or> err = InsufficientOperands \<or>
   err = NonIntegerOperand \<or> err = MalformedOperatorPlacement \<or>
   (err = UnexpectedCharacter (e ! i) \<and> e ! i \<notin> set ''0123456789mM(),.'' \<and>
    \<not> (e ! i = CHR ''-'' \<and> i + 1 < length e \<and> isdigit (e ! (i + 1))))"
  by (auto simp: scan_step_def Let_def isdigit_def split: if_splits prod.splits sum.splits
      dest!: reduce_errors)

text \<open>
  C10. \<open>evaluate\<close> never fails with \<open>NoResult\<close>, whatever the input. Validation does
  not raise it; a validated string holds an \<open>m\<close> or an \<open>M\<close>, the scan pushes a cell
  when it passes that character, and no later iteration empties a stack that is not
  empty, so a scan that ends without error ends with a stack that is not empty.
\<close>

theorem evaluate_never_NoResult: "evaluate e \<noteq> Inl NoResult"
proof (cases "validate_expression e")
  case (Inl err)
  then have "err \<noteq> NoResult" using validate_errors by blast
  with Inl show ?thesis by (simp add: evaluate_def)
next
  case (Inr u)
  then obtain k where k: "k < length e" "e ! k = CHR ''m'' \<or> e ! k = CHR ''M''"
    using validate_has_operator by auto
  show ?thesis
  proof (cases "scan e 0 []")
    case (Inl err)
    then have "err \<noteq> NoResult" using scan_error_origin scan_step_errors by blast
    with Inl Inr show ?thesis by (simp add: evaluate_def)
  next
    case scanned: (Inr st)
    then have "st \<noteq> []" using scan_operator_nonempty [of e 0 "[]" st k] k by simp
    then obtain r st2 where "st = r # st2" by (cases st) auto
    with Inr scanned show ?thesis by (simp add: evaluate_def is_empty_def)
  qed
qed

text \<open>
  C3, amended. On a string that passes validation, \<open>evaluate\<close> can fail with
  \<open>UnexpectedCharacter\<close> for the character \<open>-\<close> only, and only when the string holds a
  \<open>-\<close> that no digit follows immediately; every other allowed character is handled
  by an earlier branch. A failure of \<open>evaluate\<close> with this error comes from the scan,
  so the string has passed validation.
\<close>

theorem unexpected_character_only_minus:
  assumes "evaluate e = Inl (UnexpectedCharacter c)"
  shows "validate_expression e = Inr () \<and> c = CHR ''-'' \<and>
         (\<exists>j < length e. e ! j = CHR ''-'' \<and> \<not> (j + 1 < length e \<and> isdigit (e ! (j + 1))))"
proof -
  from assms have valid: "validate_expression e = Inr ()"
    using validate_errors [of e] by (cases "validate_expression e") (auto simp: evaluate_def)
  with assms have "scan e 0 [] = Inl (UnexpectedCharacter c)"
    by (auto simp: evaluate_def pop_raises split: sum.splits if_splits)
  then obtain j st where j: "j < length e" "scan_step e j st = Inl (UnexpectedCharacter c)"
    using scan_error_origin by blast
  from scan_step_errors [OF j(2)]
  have c: "c = e ! j" and other: "e ! j \<notin> set ''0123456789mM(),.''"
    and nodigit: "\<not> (e ! j = CHR ''-'' \<and> j + 1 < length e \<and> isdigit (e ! (j + 1)))"
    by auto
  have "e ! j \<in> ALLOWED_CHARS" using validate_allowed [OF valid] j(1) by simp
  with other have "e ! j = CHR ''-''" by (auto simp: ALLOWED_CHARS_def)
  with c nodigit j(1) valid show ?thesis by blast
qed

lemma read_number_fuel_enough:
  "length e - i \<le> fuel \<Longrightarrow> read_number_fuel fuel e num i = Some (read_number_loop e num i)"
proof (induction fuel arbitrary: num i)
  case 0
  then show ?case by (subst read_number_loop.simps) simp
next
  case (Suc fuel)
  show ?case
  proof (cases "i < length e \<and> isdigit (e ! i)")
    case True
    with Suc.prems have "length e - (i + 1) \<le> fuel" by simp
    from Suc.IH [OF this] True show ?thesis
      by (subst read_number_loop.simps) simp
  next
    case False
    then show ?thesis by (subst read_number_loop.simps) auto
  qed
qed

lemma scan_fuel_enough:
  "length e - i \<le> fuel \<Longrightarrow> scan_fuel fuel e i st = Some (scan e i st)"
proof (induction fuel arbitrary: i st)
  case 0
  then show ?case by (simp add: scan_done)
next
  case (Suc fuel)
  show ?case
  proof (cases "i < length e")
    case False
    then show ?thesis by (simp add: scan_done)
  next
    case True
    show ?thesis
    proof (cases "scan_step e i st")
      case (Inl err)
      with True show ?thesis by (simp add: scan_raise)
    next
      case (Inr x2)
      obtain j st2 where x2: "x2 = (j, st2)" by (cases x2)
      with Inr True have "i < j" using scan_step_advances by blast
      with Suc.prems have "length e - j \<le> fuel" by simp
      from Suc.IH [OF this] Inr x2 True show ?thesis by (simp add: scan_next)
    qed
  qed
qed

text \<open>
  C9. The scan ends, and within as many iterations as the input is long. The inner
  loop of \<open>_read_number\<close>, started at position \<open>i\<close>, ends within \<open>len(expression) - i\<close>
  iterations, each one moving the position forward by one; the main loop ends within
  \<open>len(expression)\<close> iterations; and every iteration of the main loop that does not
  raise moves the position strictly forward, never beyond the end of the string.
\<close>

theorem scan_bounded_by_length:
  "read_number_fuel (length e - i) e num i = Some (read_number_loop e num i) \<and>
   scan_fuel (length e) e 0 [] = Some (scan e 0 []) \<and>
   (i < length e \<and> scan_step e i st = Inr (j, st') \<longrightarrow> i < j \<and> j \<le> length e)"
  using read_number_fuel_enough [of e i "length e - i" num] scan_fuel_enough [of e 0 "length e" "[]"]
    scan_step_advances [of i e st j st']
  by simp

text \<open>
  The theorem at \<open>M(15,2)\<close>, for the iteration of the main loop that reads \<open>15\<close>.
\<close>

theorem scan_bounded_by_length_witness:
  "read_number_fuel (length ''M(15,2)'' - 2) ''M(15,2)'' 0 2 = Some (15, 4) \<and>
   scan_fuel (length ''M(15,2)'') ''M(15,2)'' 0 [] = Some (Inr [IntCell 15]) \<and>
   scan_step ''M(15,2)'' 2 [StrCell CHR ''M''] = Inr (4, [IntCell 15, StrCell CHR ''M'']) \<and>
   (2::nat) < 4 \<and> (4::nat) \<le> length ''M(15,2)''"
proof -
  have step: "scan_step ''M(15,2)'' 2 [StrCell CHR ''M''] = Inr (4, [IntCell 15, StrCell CHR ''M''])"
    by code_simp
  have rn: "read_number_loop ''M(15,2)'' 0 2 = (15, 4)" by code_simp
  have sc: "scan ''M(15,2)'' 0 [] = Inr [IntCell 15]" by code_simp
  show ?thesis
    using scan_bounded_by_length [of "''M(15,2)''" 2 0 "[StrCell CHR ''M'']" 4
        "[IntCell 15, StrCell CHR ''M'']"] step rn sc
    by (simp del: read_number_fuel.simps scan_fuel.simps)
qed

lemma evaluate_scan_error:
  "validate_expression e = Inr () \<Longrightarrow> scan e 0 [] = Inl err \<Longrightarrow> evaluate e = Inl err"
  by (simp add: evaluate_def)

lemma scan_after_raise:
  assumes "scan_after e k = Inr (i, st)" and "i < length e" and "scan_step e i st = Inl err"
  shows "scan e 0 [] = Inl err"
  using scan_after_scan [OF assms(1)] scan_raise [OF assms(2,3)] by simp

text \<open>
  C5. When the scan of a validated expression stands at a \<open>)\<close>, with stack \<open>st\<close>: with
  fewer than three cells on the stack the evaluation fails with
  \<open>InsufficientOperands\<close>. Otherwise let \<open>b\<close>, \<open>a\<close>, \<open>oper\<close> be the three topmost cells, in
  the order they are popped. If \<open>a\<close> or \<open>b\<close> is not an integer, the evaluation fails
  with \<open>NonIntegerOperand\<close>; else if \<open>oper\<close> is neither \<open>'m'\<close> nor \<open>'M'\<close>, it fails with
  \<open>MalformedOperatorPlacement\<close>; else the three cells are replaced by the minimum
  (for \<open>'m'\<close>) or the maximum (for \<open>'M'\<close>) of \<open>a\<close> and \<open>b\<close>, and the scan moves on by one
  character.
\<close>

theorem close_paren_reduction:
  assumes "validate_expression e = Inr ()" and "scan_after e k = Inr (i, st)"
    and "i < length e" and "e ! i = CHR '')''"
  shows "(length st < 3 \<longrightarrow> evaluate e = Inl InsufficientOperands) \<and>
    (\<forall>b a oper rest. st = b # a # oper # rest \<longrightarrow>
       ((\<nexists>x. a = IntCell x) \<or> (\<nexists>y. b = IntCell y) \<longrightarrow> evaluate e = Inl NonIntegerOperand) \<and>
       (\<forall>x y. a = IntCell x \<and> b = IntCell y \<longrightarrow>
          (oper \<noteq> StrCell CHR ''m'' \<and> oper \<noteq> StrCell CHR ''M'' \<longrightarrow>
             evaluate e = Inl MalformedOperatorPlacement) \<and>
          (oper = StrCell CHR ''m'' \<longrightarrow>
             scan_after e (Suc k) = Inr (i + 1, IntCell (min x y) # rest)) \<and>
          (oper = StrCell CHR ''M'' \<longrightarrow>
             scan_after e (Suc k) = Inr (i + 1, IntCell (max x y) # rest))))"
proof -
  have step: "scan_step e i st = (case reduce st of Inl err \<Rightarrow> Inl err | Inr st' \<Rightarrow> Inr (i + 1, st'))"
    using assms(4) by (simp add: scan_step_def Let_def isdigit_def)
  have fail: "evaluate e = Inl err" if "reduce st = Inl err" for err
    using that step scan_after_raise [OF assms(2,3)] evaluate_scan_error [OF assms(1)] by simp
  have after: "scan_after e (Suc k) = Inr (i + 1, st')" if "reduce st = Inr st'" for st'
    using that step assms(2,3) by simp
  have short: "reduce st = Inl InsufficientOperands" if "length st < 3"
  proof -
    from that consider "st = []" | b where "st = [b]" | b a where "st = [b, a]"
      by (cases st rule: list.exhaust; simp; rename_tac r; case_tac r; simp; rename_tac r; case_tac r; simp)
    then show ?thesis by cases (simp_all add: reduce_eq)
  qed
  show ?thesis
  proof (intro conjI allI impI)
    assume "length st < 3"
    then show "evaluate e = Inl InsufficientOperands" by (intro fail short)
  next
    fix b a oper rest
    assume st: "st = b # a # oper # rest" and bad: "(\<nexists>x. a = IntCell x) \<or> (\<nexists>y. b = IntCell y)"
    then have "reduce st = Inl NonIntegerOperand"
      by (cases a; cases b) (auto simp: reduce_eq)
    then show "evaluate e = Inl NonIntegerOperand" by (rule fail)
  next
    fix b a oper rest x y
    assume st: "st = b # a # oper # rest" and ab: "a = IntCell x \<and> b = IntCell y"
      and op: "oper \<noteq> StrCell CHR ''m'' \<and> oper \<noteq> StrCell CHR ''M''"
    then have "reduce st = Inl MalformedOperatorPlacement" by (simp add: reduce_eq)
    then show "evaluate e = Inl MalformedOperatorPlacement" by (rule fail)
  next
    fix b a oper rest x y
    assume st: "st = b # a # oper # rest" and ab: "a = IntCell x \<and> b = IntCell y"
      and op: "oper = StrCell CHR ''m''"
    then have "reduce st = Inr (IntCell (min x y) # rest)" by (simp add: reduce_eq)
    then show "scan_after e (Suc k) = Inr (i + 1, IntCell (min x y) # rest)" by (rule after)
  next
    fix b a oper rest x y
    assume st: "st = b # a # oper # rest" and ab: "a = IntCell x \<and> b = IntCell y"
      and op: "oper = StrCell CHR ''M''"
    then have "reduce st = Inr (IntCell (max x y) # rest)" by (simp add: reduce_eq)
    then show "scan_after e (Suc k) = Inr (i + 1, IntCell (max x y) # rest)" by (rule after)
  qed
qed

text \<open>
  The theorem at \<open>m(3,7)\<close>, where the scan stands at the \<open>)\<close> after five iterations.
\<close>

theorem close_paren_reduction_witness:
  "validate_expression ''m(3,7)'' = Inr () \<and>
   scan_after ''m(3,7)'' 5 = Inr (5, [IntCell 7, IntCell 3, StrCell CHR ''m'']) \<and>
   ''m(3,7)'' ! 5 = CHR '')'' \<and>
   scan_after ''m(3,7)'' (Suc 5) = Inr (5 + 1, [IntCell (min 3 7)])"
proof -
  have v: "validate_expression ''m(3,7)'' = Inr ()" by code_simp
  have a: "scan_after ''m(3,7)'' 5 = Inr (5, [IntCell 7, IntCell 3, StrCell CHR ''m''])"
    by code_simp
  have l: "5 < length ''m(3,7)''" by simp
  have c: "''m(3,7)'' ! 5 = CHR '')''" by simp
  from close_paren_reduction [OF v a l c] v a c show ?thesis by blast
qed

text \<open>
  C6. When the scan of a validated expression ends without error with stack \<open>st\<close>:
  if \<open>st\<close> is empty, \<open>evaluate\<close> fails with \<open>NoResult\<close>; otherwise its top cell is popped
  as the result, and if the stack is not empty after that, \<open>evaluate\<close> fails with
  \<open>ExtraArguments\<close>, else it returns the result. In particular \<open>evaluate("M(1,2)3")\<close>
  fails with \<open>ExtraArguments\<close>.
\<close>

theorem end_of_scan:
  "(validate_expression e = Inr () \<and> scan e 0 [] = Inr st \<longrightarrow>
      (st = [] \<longrightarrow> evaluate e = Inl NoResult) \<and>
      (\<forall>result rest. st = result # rest \<longrightarrow>
         (rest \<noteq> [] \<longrightarrow> evaluate e = Inl ExtraArguments) \<and>
         (rest = [] \<longrightarrow> evaluate e = Inr result))) \<and>
   evaluate ''M(1,2)3'' = Inl ExtraArguments"
proof -
  have "evaluate ''M(1,2)3'' = Inl ExtraArguments" by code_simp
  then show ?thesis by (auto simp: evaluate_def is_empty_def)
qed

text \<open>
  The theorem at \<open>M(1,2)3\<close>, whose scan ends with two cells on the stack.
\<close>

theorem end_of_scan_witness:
  "validate_expression ''M(1,2)3'' = Inr () \<and>
   scan ''M(1,2)3'' 0 [] = Inr [IntCell 3, IntCell 2] \<and>
   evaluate ''M(1,2)3'' = Inl ExtraArguments"
proof -
  have v: "validate_expression ''M(1,2)3'' = Inr ()" by code_simp
  have s: "scan ''M(1,2)3'' 0 [] = Inr [IntCell 3, IntCell 2]" by code_simp
  from end_of_scan [of "''M(1,2)3''" "[IntCell 3, IntCell 2]"] v s show ?thesis by blast
qed

text \<open>
  C7. When the scan of a validated expression stands at a \<open>-\<close> that a digit follows
  immediately, \<open>evaluate\<close> fails with \<open>NegativeNumberNotAllowed\<close>; when it stands at a
  \<open>.\<close>, or at a digit that a \<open>.\<close> follows immediately, \<open>evaluate\<close> fails with
  \<open>NonIntegerNotAllowed\<close>. In particular \<open>evaluate("M(-1,2)")\<close> fails with the first
  and \<open>evaluate("M(1.5,2)")\<close> with the second.
\<close>

theorem rejected_literals:
  "(validate_expression e = Inr () \<and> scan_after e k = Inr (i, st) \<and> i < length e \<longrightarrow>
      (e ! i = CHR ''-'' \<and> i + 1 < length e \<and> isdigit (e ! (i + 1)) \<longrightarrow>
         evaluate e = Inl NegativeNumberNotAllowed) \<and>
      (e ! i = CHR ''.'' \<or> (isdigit (e ! i) \<and> i + 1 < length e \<and> e ! (i + 1) = CHR ''.'') \<longrightarrow>
         evaluate e = Inl NonIntegerNotAllowed)) \<and>
   evaluate ''M(-1,2)'' = Inl NegativeNumberNotAllowed \<and>
   evaluate ''M(1.5,2)'' = Inl NonIntegerNotAllowed"
proof -
  have neg: "scan_step e i st = Inl NegativeNumberNotAllowed"
    if "e ! i = CHR ''-'' \<and> i + 1 < length e \<and> isdigit (e ! (i + 1))"
    using that by (simp add: scan_step_def Let_def)
  have non: "scan_step e i st = Inl NonIntegerNotAllowed"
    if "e ! i = CHR ''.'' \<or> (isdigit (e ! i) \<and> i + 1 < length e \<and> e ! (i + 1) = CHR ''.'')"
    using that by (auto simp: scan_step_def Let_def isdigit_def)
  have ex1: "evaluate ''M(-1,2)'' = Inl NegativeNumberNotAllowed" by code_simp
  have ex2: "evaluate ''M(1.5,2)'' = Inl NonIntegerNotAllowed" by code_simp
  show ?thesis
    using neg non ex1 ex2 scan_after_raise [of e k i st] evaluate_scan_error [of e]
    by blast
qed

text \<open>
  The theorem at \<open>M(7,-1)\<close>, where the scan stands at the \<open>-\<close> after four iterations.
\<close>

theorem rejected_literals_witness:
  "validate_expression ''M(7,-1)'' = Inr () \<and>
   scan_after ''M(7,-1)'' 4 = Inr (4, [IntCell 7, StrCell CHR ''M'']) \<and>
   ''M(7,-1)'' ! 4 = CHR ''-'' \<and> isdigit (''M(7,-1)'' ! (4 + 1)) \<and>
   evaluate ''M(7,-1)'' = Inl NegativeNumberNotAllowed"
proof -
  have v: "validate_expression ''M(7,-1)'' = Inr ()" by code_simp
  have a: "scan_after ''M(7,-1)'' 4 = Inr (4, [IntCell 7, StrCell CHR ''M''])" by code_simp
  have c: "''M(7,-1)'' ! 4 = CHR ''-''" by simp
  have d: "isdigit (''M(7,-1)'' ! (4 + 1))" by (simp add: isdigit_def)
  have l: "4 < length ''M(7,-1)''" "4 + 1 < length ''M(7,-1)''" by simp_all
  from rejected_literals [of "''M(7,-1)''" 4 4 "[IntCell 7, StrCell CHR ''M'']"] v a c d l
  show ?thesis by blast
qed

section \<open>Well-formed expressions\<close>

lemma drop_eq_Cons:
  assumes "drop i e = c # rest"
  shows "i < length e" and "e ! i = c" and "drop (i + 1) e = rest"
proof -
  show lt: "i < length e" using assms by (cases "i < length e") auto
  from lt have "drop i e = e ! i # drop (Suc i) e" by (simp add: Cons_nth_drop_Suc)
  with assms show "e ! i = c" and "drop (i + 1) e = rest" by simp_all
qed

lemma drop_eq_append: "drop i e = xs @ ys \<Longrightarrow> drop (i + length xs) e = ys"
proof -
  assume a: "drop i e = xs @ ys"
  have "drop (i + length xs) e = drop (length xs) (drop i e)" by (simp add: add.commute)
  with a show ?thesis by simp
qed

lemma read_number_loop_run:
  "drop i e = ds @ post \<Longrightarrow> list_all isdigit ds \<Longrightarrow> post = [] \<or> \<not> isdigit (hd post) \<Longrightarrow>
   read_number_loop e num i = (num * 10 ^ length ds + decimal ds, i + length ds)"
proof (induction ds arbitrary: num i)
  case Nil
  show ?case
  proof (cases "i < length e")
    case True
    then have "e ! i = hd (drop i e)" by (simp add: hd_drop_conv_nth)
    with Nil True have "\<not> isdigit (e ! i)" by auto
    then show ?thesis by (subst read_number_loop.simps) simp
  next
    case False
    then show ?thesis by (subst read_number_loop.simps) simp
  qed
next
  case (Cons d ds)
  from Cons.prems(1) have "drop i e = d # (ds @ post)" by simp
  from drop_eq_Cons [OF this]
  have lt: "i < length e" and d: "e ! i = d" and rest: "drop (i + 1) e = ds @ post" .
  from Cons.prems(2) have dig: "isdigit d" and digs: "list_all isdigit ds" by simp_all
  have "read_number_loop e num i = read_number_loop e (num * 10 + int_of_digit d) (i + 1)"
    using lt d dig by (subst read_number_loop.simps) simp
  also have "\<dots> = ((num * 10 + int_of_digit d) * 10 ^ length ds + decimal ds, i + 1 + length ds)"
    using rest digs Cons.prems(3) by (rule Cons.IH)
  finally show ?case by (simp add: algebra_simps)
qed

lemma terminator_not_digit: "terminator post \<Longrightarrow> post = [] \<or> \<not> isdigit (hd post)"
  by (auto simp: terminator_def isdigit_def)

lemma scan_step_digits:
  assumes "drop i e = ds @ post" and "ds \<noteq> []" and "list_all isdigit ds" and "terminator post"
  shows "scan_step e i st = Inr (i + length ds, IntCell (decimal ds) # st)"
proof -
  from assms(2) obtain d ds' where ds: "ds = d # ds'" by (cases ds) auto
  with assms(1) have "drop i e = d # (ds' @ post)" by simp
  from drop_eq_Cons [OF this]
  have lt: "i < length e" and d: "e ! i = d" and rest: "drop (i + 1) e = ds' @ post" .
  from assms(3) ds have dig: "isdigit d" and digs: "list_all isdigit ds'" by simp_all
  have nodot: "\<not> (i + 1 < length e \<and> e ! (i + 1) = CHR ''.'')"
  proof
    assume a: "i + 1 < length e \<and> e ! (i + 1) = CHR ''.''"
    then have "hd (ds' @ post) = CHR ''.''" and "ds' @ post \<noteq> []"
      using rest hd_drop_conv_nth [of "i + 1" e] by auto
    then show False
      using digs assms(4) by (cases ds') (auto simp: terminator_def isdigit_def)
  qed
  have "read_number e i = (decimal ds, i + length ds)"
    using read_number_loop_run [OF assms(1) assms(3) terminator_not_digit [OF assms(4)], of 0]
    by (simp add: read_number_def)
  with d dig nodot show ?thesis
    by (auto simp: scan_step_def Let_def push_def isdigit_def)
qed

lemma scan_step_operator_char:
  "e ! i = operator_char oper \<Longrightarrow>
   scan_step e i st = Inr (i + 1, StrCell (operator_char oper) # st)"
  by (cases oper) (simp_all add: scan_step_def Let_def push_def isdigit_def)

lemma scan_step_open: "e ! i = CHR ''('' \<Longrightarrow> scan_step e i st = Inr (i + 1, st)"
  by (simp add: scan_step_def Let_def isdigit_def)

lemma scan_step_comma: "e ! i = CHR '','' \<Longrightarrow> scan_step e i st = Inr (i + 1, st)"
  by (simp add: scan_step_def Let_def isdigit_def)

lemma scan_step_close:
  "e ! i = CHR '')'' \<Longrightarrow>
   scan_step e i (IntCell y # IntCell x # StrCell (operator_char oper) # st) =
     Inr (i + 1, IntCell (case oper of OpMin \<Rightarrow> min x y | OpMax \<Rightarrow> max x y) # st)"
  by (cases oper) (simp_all add: scan_step_def Let_def isdigit_def reduce_eq)

lemma scan_render:
  "well_formed t \<Longrightarrow> drop i e = render t @ post \<Longrightarrow> terminator post \<Longrightarrow>
   scan e i st = scan e (i + length (render t)) (IntCell (fold_value t) # st)"
proof (induction t arbitrary: i post st)
  case (Digits ds)
  then have step: "scan_step e i st = Inr (i + length ds, IntCell (decimal ds) # st)"
    by (intro scan_step_digits [where post = post]) simp_all
  from Digits have "drop i e \<noteq> []" by auto
  then have "i < length e" by simp
  then show ?case using step by (simp add: scan_next)
next
  case (Apply oper a b)
  let ?ra = "render a" and ?rb = "render b"
  let ?oc = "operator_char oper"
  let ?st1 = "StrCell ?oc # st"
  let ?va = "fold_value a" and ?vb = "fold_value b"
  from Apply.prems(2)
  have d0: "drop i e = ?oc # (CHR ''('' # ?ra @ CHR '','' # ?rb @ CHR '')'' # post)" by simp
  from drop_eq_Cons [OF d0]
  have l0: "i < length e" and c0: "e ! i = ?oc"
    and d1: "drop (i + 1) e = CHR ''('' # ?ra @ CHR '','' # ?rb @ CHR '')'' # post" .
  from drop_eq_Cons [OF d1]
  have l1: "i + 1 < length e" and c1: "e ! (i + 1) = CHR ''(''"
    and d2: "drop (i + 1 + 1) e = ?ra @ (CHR '','' # ?rb @ CHR '')'' # post)" by simp_all
  from drop_eq_append [OF d2]
  have d3: "drop (i + 1 + 1 + length ?ra) e = CHR '','' # (?rb @ CHR '')'' # post)" .
  from drop_eq_Cons [OF d3]
  have l3: "i + 1 + 1 + length ?ra < length e" and c3: "e ! (i + 1 + 1 + length ?ra) = CHR '',''"
    and d4: "drop (i + 1 + 1 + length ?ra + 1) e = ?rb @ (CHR '')'' # post)" by simp_all
  from drop_eq_append [OF d4]
  have d5: "drop (i + 1 + 1 + length ?ra + 1 + length ?rb) e = CHR '')'' # post" .
  from drop_eq_Cons [OF d5]
  have l5: "i + 1 + 1 + length ?ra + 1 + length ?rb < length e"
    and c5: "e ! (i + 1 + 1 + length ?ra + 1 + length ?rb) = CHR '')''" by simp_all
  from Apply.prems(1) have wa: "well_formed a" and wb: "well_formed b" by simp_all
  have "scan e i st = scan e (i + 1) ?st1"
    using l0 scan_step_operator_char [OF c0] by (rule scan_next)
  also have "\<dots> = scan e (i + 1 + 1) ?st1"
    using l1 scan_step_open [OF c1] by (rule scan_next)
  also have "\<dots> = scan e (i + 1 + 1 + length ?ra) (IntCell ?va # ?st1)"
    using wa d2 by (rule Apply.IH(1)) (simp add: terminator_def)
  also have "\<dots> = scan e (i + 1 + 1 + length ?ra + 1) (IntCell ?va # ?st1)"
    using l3 scan_step_comma [OF c3] by (rule scan_next)
  also have "\<dots> = scan e (i + 1 + 1 + length ?ra + 1 + length ?rb)
                     (IntCell ?vb # IntCell ?va # ?st1)"
    using wb d4 by (rule Apply.IH(2)) (simp add: terminator_def)
  also have "\<dots> = scan e (i + 1 + 1 + length ?ra + 1 + length ?rb + 1)
                     (IntCell (case oper of OpMin \<Rightarrow> min ?va ?vb | OpMax \<Rightarrow> max ?va ?vb) # st)"
    using l5 scan_step_close [OF c5] by (rule scan_next)
  finally show ?case by (cases oper) (simp_all add: add.assoc)
qed

lemma isdigit_allowed: "isdigit ch \<Longrightarrow> ch \<in> ALLOWED_CHARS"
  by (auto simp: isdigit_def ALLOWED_CHARS_def)

lemma punctuation_allowed:
  "operator_char oper \<in> ALLOWED_CHARS" "CHR ''('' \<in> ALLOWED_CHARS"
  "CHR '','' \<in> ALLOWED_CHARS" "CHR '')'' \<in> ALLOWED_CHARS"
  by (cases oper; simp add: ALLOWED_CHARS_def)+

lemma render_allowed: "well_formed t \<Longrightarrow> \<forall>ch \<in> set (render t). ch \<in> ALLOWED_CHARS"
proof (induction t)
  case (Digits ds)
  then show ?case by (auto simp: list_all_iff isdigit_allowed)
next
  case (Apply oper a b)
  then show ?case by (auto simp: punctuation_allowed)
qed

lemma balance_loop_digits:
  "list_all isdigit ds \<Longrightarrow> balance_loop (ds @ post) b = balance_loop post b"
  by (induction ds) (auto simp: isdigit_def)

lemma balance_loop_render:
  "well_formed t \<Longrightarrow> 0 \<le> b \<Longrightarrow> balance_loop (render t @ post) b = balance_loop post b"
proof (induction t arbitrary: b post)
  case (Digits ds)
  then show ?case by (simp add: balance_loop_digits)
next
  case (Apply oper a b')
  have oc: "operator_char oper \<noteq> CHR ''(''" "operator_char oper \<noteq> CHR '')''"
    by (cases oper; simp)+
  from Apply.prems have wa: "well_formed a" and wb: "well_formed b'" and b1: "0 \<le> b + 1"
    by simp_all
  have "balance_loop (render (Apply oper a b') @ post) b =
        balance_loop (render a @ (CHR '','' # render b' @ CHR '')'' # post)) (b + 1)"
    using oc by simp
  also have "\<dots> = balance_loop (CHR '','' # render b' @ CHR '')'' # post) (b + 1)"
    using wa b1 by (rule Apply.IH(1))
  also have "\<dots> = balance_loop (render b' @ (CHR '')'' # post)) (b + 1)" by simp
  also have "\<dots> = balance_loop (CHR '')'' # post) (b + 1)"
    using wb b1 by (rule Apply.IH(2))
  also have "\<dots> = balance_loop post b" using Apply.prems(2) by simp
  finally show ?case .
qed

lemma validate_render:
  assumes "well_formed (Apply oper a b)"
  shows "validate_expression (render (Apply oper a b)) = Inr ()"
proof -
  let ?e = "render (Apply oper a b)"
  have ne: "?e \<noteq> []" by simp
  have chars: "check_chars ?e = Inr ()"
    using render_allowed [OF assms] by (simp only: check_chars_first) auto
  have "balance_loop (?e @ []) 0 = balance_loop [] 0"
    using assms by (rule balance_loop_render) simp
  then have bal: "balance_loop ?e 0 = Inr 0" by simp
  have oper: "CHR ''m'' \<in> set ?e \<or> CHR ''M'' \<in> set ?e" by (cases oper) simp_all
  show ?thesis
    unfolding validate_expression_def using ne chars bal oper
    by (simp del: render.simps)
qed

lemma evaluate_render:
  assumes "well_formed (Apply oper a b)"
  shows "evaluate (render (Apply oper a b)) = Inr (IntCell (fold_value (Apply oper a b)))"
proof -
  let ?t = "Apply oper a b"
  let ?e = "render ?t"
  have "scan ?e 0 [] = scan ?e (0 + length (render ?t)) (IntCell (fold_value ?t) # [])"
    using assms by (rule scan_render [where post = "[]"]) (simp_all add: terminator_def)
  also have "\<dots> = Inr [IntCell (fold_value ?t)]" by (simp add: scan_done del: render.simps)
  finally have "scan ?e 0 [] = Inr [IntCell (fold_value ?t)]" .
  with validate_render [OF assms] show ?thesis
    by (simp add: evaluate_def is_empty_def del: render.simps fold_value.simps)
qed

lemma isdigit_not_operator: "isdigit ch \<Longrightarrow> ch \<noteq> CHR ''m'' \<and> ch \<noteq> CHR ''M''"
  by (auto simp: isdigit_def)

lemma validate_digits:
  assumes "ds \<noteq> []" and "list_all isdigit ds"
  shows "validate_expression ds = Inl NoOperator"
proof -
  have chars: "check_chars ds = Inr ()"
    using assms(2) by (simp only: check_chars_first) (auto simp: list_all_iff isdigit_allowed)
  have "balance_loop (ds @ []) 0 = balance_loop [] 0" using assms(2) by (rule balance_loop_digits)
  then have bal: "balance_loop ds 0 = Inr 0" by simp
  have noop: "CHR ''m'' \<notin> set ds \<and> CHR ''M'' \<notin> set ds"
    using assms(2) isdigit_not_operator by (auto simp: list_all_iff)
  show ?thesis
    using assms(1) chars bal noop by (simp add: validate_expression_def)
qed

text \<open>
  C1, amended. For every well-formed expression of the grammar
  \<open>E := digits | Op(E,E)\<close>, \<open>Op\<close> one of \<open>m\<close> and \<open>M\<close>: if it is an application
  \<open>Op(E,E)\<close>, \<open>evaluate\<close> of its string succeeds and returns the integer obtained by
  folding the tree with minimum for \<open>m\<close> and maximum for \<open>M\<close>; if it is a string of
  digits alone, \<open>evaluate\<close> fails with \<open>NoOperator\<close>.
\<close>

theorem evaluate_well_formed:
  assumes "well_formed t"
  shows "evaluate (render t) =
     (case t of Digits ds \<Rightarrow> Inl NoOperator
      | Apply oper a b \<Rightarrow> Inr (IntCell (fold_value t)))"
proof (cases t)
  case (Digits ds)
  with assms have "validate_expression ds = Inl NoOperator" by (simp add: validate_digits)
  with Digits show ?thesis by (simp add: evaluate_def)
next
  case (Apply oper a b)
  with assms have "evaluate (render (Apply oper a b)) = Inr (IntCell (fold_value (Apply oper a b)))"
    by (intro evaluate_render) simp
  with Apply show ?thesis by (simp del: render.simps fold_value.simps)
qed

text \<open>
  The theorem at \<open>m(4,M(20,07))\<close>.
\<close>

theorem evaluate_well_formed_witness:
  "well_formed (Apply OpMin (Digits ''4'') (Apply OpMax (Digits ''20'') (Digits ''07''))) \<and>
   evaluate ''m(4,M(20,07))'' = Inr (IntCell 4)"
proof -
  let ?t = "Apply OpMin (Digits ''4'') (Apply OpMax (Digits ''20'') (Digits ''07''))"
  have w: "well_formed ?t" by (simp add: isdigit_def)
  have r: "render ?t = ''m(4,M(20,07))''" by simp
  have v: "fold_value ?t = 4" by (simp add: int_of_digit_def)
  from evaluate_well_formed [OF w] w r v show ?thesis by simp
qed

text \<open>
  C1 as stated fails at the expression \<open>5\<close>: the grammar generates it, and \<open>evaluate\<close>
  fails on it with \<open>NoOperator\<close>.
\<close>

theorem bare_number_counterexample:
  "well_formed (Digits ''5'') \<and> render (Digits ''5'') = ''5'' \<and> evaluate ''5'' = Inl NoOperator"
proof -
  have "evaluate ''5'' = Inl NoOperator" by code_simp
  then show ?thesis by (simp add: isdigit_def)
qed

subsection \<open>What \<open>evaluate\<close> returns\<close>

text \<open>Every integer on the stack is at least zero, so an integer result is.\<close>

lemma int_of_digit_nonneg: "isdigit ch \<Longrightarrow> 0 \<le> int_of_digit ch"
  by (auto simp: isdigit_def int_of_digit_def)

lemma read_number_loop_nonneg: "0 \<le> num \<Longrightarrow> 0 \<le> fst (read_number_loop e num i)"
proof (induction e num i rule: read_number_loop.induct)
  case (1 e num i)
  show ?case
  proof (cases "i < length e \<and> isdigit (e ! i)")
    case True
    then have "0 \<le> num * 10 + int_of_digit (e ! i)"
      using "1.prems" int_of_digit_nonneg [of "e ! i"] by simp
    with "1.IH" True show ?thesis by (subst read_number_loop.simps) simp
  next
    case False
    with "1.prems" show ?thesis by (subst read_number_loop.simps) auto
  qed
qed

lemma reduce_nonneg:
  "reduce st = Inr st' \<Longrightarrow> \<forall>n. IntCell n \<in> set st \<longrightarrow> 0 \<le> n \<Longrightarrow>
   \<forall>n. IntCell n \<in> set st' \<longrightarrow> 0 \<le> n"
  by (auto simp: reduce_eq min_def max_def split: list.splits cell.splits if_splits)

lemma scan_step_nonneg:
  assumes "scan_step e i st = Inr (j, st')" and "\<forall>n. IntCell n \<in> set st \<longrightarrow> 0 \<le> n"
  shows "\<forall>n. IntCell n \<in> set st' \<longrightarrow> 0 \<le> n"
proof -
  have "0 \<le> fst (read_number e i)"
    using read_number_loop_nonneg [of 0 e i] by (simp add: read_number_def)
  with assms show ?thesis
    by (auto simp: scan_step_def Let_def push_def split: if_splits prod.splits sum.splits
        dest: reduce_nonneg)
qed

lemma scan_nonneg:
  "scan e i st = Inr st' \<Longrightarrow> \<forall>n. IntCell n \<in> set st \<longrightarrow> 0 \<le> n \<Longrightarrow>
   \<forall>n. IntCell n \<in> set st' \<longrightarrow> 0 \<le> n"
proof (induction e i st rule: scan.induct)
  case (1 e i st)
  show ?case
  proof (cases "i < length e")
    case False
    with "1.prems" show ?thesis by (simp add: scan_done)
  next
    case True
    show ?thesis
    proof (cases "scan_step e i st")
      case (Inl err)
      with True "1.prems" show ?thesis by (simp add: scan_raise)
    next
      case (Inr x2)
      obtain j st2 where x2: "x2 = (j, st2)" by (cases x2)
      with Inr True "1.prems"(1) have "scan e j st2 = Inr st'" by (simp add: scan_next)
      moreover have "\<forall>n. IntCell n \<in> set st2 \<longrightarrow> 0 \<le> n"
        using Inr x2 "1.prems"(2) scan_step_nonneg by blast
      ultimately show ?thesis
        using "1.IH" [OF True Inr x2 [symmetric]] by blast
    qed
  qed
qed

lemma evaluate_integer_nonnegative: "evaluate e = Inr (IntCell n) \<Longrightarrow> 0 \<le> n"
proof -
  assume a: "evaluate e = Inr (IntCell n)"
  then obtain st where st: "scan e 0 [] = Inr st" and hd: "st = [IntCell n]"
    by (auto simp: evaluate_def is_empty_def pop_raises split: sum.splits if_splits list.splits
        elim!: pop.elims)
  from scan_nonneg [OF st] hd show ?thesis by simp
qed

text \<open>
  C2 fails at the input \<open>m\<close>: it passes validation, the scan pushes the string \<open>'m'\<close>,
  and \<open>evaluate\<close> returns that string, not an integer.
\<close>

theorem operator_alone_returns_string: "evaluate ''m'' = Inr (StrCell CHR ''m'')"
  by code_simp

text \<open>
  C3 as stated fails at \<open>-m\<close>: the string passes validation, and \<open>evaluate\<close> fails on it
  with \<open>UnexpectedCharacter\<close>.
\<close>

theorem lone_minus_counterexample:
  "validate_expression ''-m'' = Inr () \<and> evaluate ''-m'' = Inl (UnexpectedCharacter CHR ''-'')"
  by code_simp

text \<open>
  The amended C3 at \<open>M(-,2)\<close>.
\<close>

theorem unexpected_character_only_minus_witness:
  "evaluate ''M(-,2)'' = Inl (UnexpectedCharacter CHR ''-'') \<and>
   validate_expression ''M(-,2)'' = Inr () \<and>
   (\<exists>j < length ''M(-,2)''. ''M(-,2)'' ! j = CHR ''-'' \<and>
      \<not> (j + 1 < length ''M(-,2)'' \<and> isdigit (''M(-,2)'' ! (j + 1))))"
proof -
  have h: "evaluate ''M(-,2)'' = Inl (UnexpectedCharacter CHR ''-'')" by code_simp
  from unexpected_character_only_minus [OF h] h show ?thesis by blast
qed

text \<open>
  C8. \<open>evaluate("M(15,m(16,8))")\<close> returns \<open>15\<close> and \<open>evaluate("m(3,m(7,2))")\<close> returns
  \<open>2\<close>.
\<close>

theorem documented_examples:
  "evaluate ''M(15,m(16,8))'' = Inr (IntCell 15) \<and> evaluate ''m(3,m(7,2))'' = Inr (IntCell 2)"
  by code_simp


end
